theory Spec2Isabelle
  imports Complex_Main "HOL-Library.AList" "HOL-Library.Log_Nat"
begin

section \<open>Data model of \<open>src/index.ts\<close>\<close>

subsection \<open>Dates and the registry\<close>

text \<open>
  A \<open>Date\<close> is its \<open>getTime()\<close> value: an integer number of milliseconds since the epoch.
  The registry \<open>protectedUsers: Map<string, Date>\<close> is an association list in insertion
  order (the order \<open>Map.prototype.forEach\<close> and \<open>keys()\<close> follow); a JavaScript \<open>Map\<close>
  holds every key once, which is the invariant \<open>distinct (map fst reg)\<close>.
\<close>

type_synonym registry = "(string \<times> int) list"

subsection \<open>JavaScript numbers\<close>

text \<open>
  A JavaScript number is an IEEE 754 double: a finite value, which is a rational, or one
  of the infinities, or NaN. The two zeros are one value here; the modelled code only
  multiplies and compares numbers, and neither tells \<open>-0\<close> from \<open>0\<close>.
\<close>

datatype number = Finite rat | PosInf | NegInf | NaN

definition pow2 :: "int \<Rightarrow> rat" where
  "pow2 e = (if 0 \<le> e then 2 ^ nat e else 1 / 2 ^ nat (- e))"

text \<open>For \<open>r > 0\<close>, the integer \<open>e\<close> with \<open>2\<^sup>e \<le> r < 2\<^sup>e\<^sup>+\<^sup>1\<close>.\<close>

definition floor_log2 :: "rat \<Rightarrow> int" where
  "floor_log2 r = (if 1 \<le> r then bitlen \<lfloor>r\<rfloor> - 1 else - bitlen (\<lceil>1 / r\<rceil> - 1))"

text \<open>The nearest integer, a tie going to the even one.\<close>

definition round_half_even :: "rat \<Rightarrow> int" where
  "round_half_even q =
     (let f = \<lfloor>q\<rfloor>; d = q - of_int f
      in if d < 1 / 2 then f else if 1 / 2 < d then f + 1 else if even f then f else f + 1)"

text \<open>
  Rounding an exact result to a double, to nearest with ties to even: 53 significant
  bits, the exponent not below \<open>-1022\<close> (below it the spacing stays \<open>2\<^sup>-\<^sup>1\<^sup>0\<^sup>7\<^sup>4\<close>), and an
  infinity when the rounded value reaches \<open>2\<^sup>1\<^sup>0\<^sup>2\<^sup>4\<close>. A decimal literal of the
  configuration file, such as \<open>4.1\<close>, is read as \<open>round_double (41 / 10)\<close>.
\<close>

definition round_double :: "rat \<Rightarrow> number" where
  "round_double r =
     (if r = 0 then Finite 0
      else
        (let u = pow2 (max (floor_log2 \<bar>r\<bar>) (- 1022) - 52);
             v = of_int (round_half_even (r / u)) * u
         in if pow2 1024 \<le> \<bar>v\<bar> then (if 0 < r then PosInf else NegInf) else Finite v))"

text \<open>The operator \<open>*\<close> on numbers.\<close>

fun js_times :: "number \<Rightarrow> number \<Rightarrow> number" where
  "js_times NaN y = NaN"
| "js_times x NaN = NaN"
| "js_times (Finite a) (Finite b) = round_double (a * b)"
| "js_times (Finite a) y =
     (if a = 0 then NaN else if (0 < a) = (y = PosInf) then PosInf else NegInf)"
| "js_times x (Finite b) =
     (if b = 0 then NaN else if (0 < b) = (x = PosInf) then PosInf else NegInf)"
| "js_times x y = (if x = y then PosInf else NegInf)"

text \<open>The operator \<open>>\<close> on numbers: \<open>js_gt x y\<close> is \<open>x > y\<close>.\<close>

fun js_gt :: "number \<Rightarrow> number \<Rightarrow> bool" where
  "js_gt NaN y = False"
| "js_gt x NaN = False"
| "js_gt (Finite a) (Finite b) = (b < a)"
| "js_gt PosInf y = (y \<noteq> PosInf)"
| "js_gt x NegInf = (x \<noteq> NegInf)"
| "js_gt x y = False"

subsection \<open>Configuration, clients, events\<close>

text \<open>
  \<open>config.moderation.idletime\<close>, the only field of the validated configuration that the
  modelled code reads: a number, as \<open>z.number()\<close> accepts it.
\<close>

record config =
  idletime :: number

text \<open>\<open>TextMessageTargetMode\<close> of the TeamSpeak library.\<close>

datatype target_mode = CLIENT | CHANNEL | SERVER

text \<open>
  The fields of a \<open>TeamSpeakClient\<close> that the handlers read. \<open>idleTime\<close> is the whole
  number of milliseconds the server reports.
\<close>

record client =
  clid :: string
  cid :: string
  idleTime :: int
  nickname :: string

text \<open>The channel returned by \<open>getChannelByName\<close>; only its \<open>cid\<close> is read.\<close>

record channel =
  ch_cid :: string

text \<open>The \<open>textmessage\<close> event: \<open>e.targetmode\<close>, \<open>e.invoker\<close>, \<open>e.msg\<close>.\<close>

record text_event =
  targetmode :: target_mode
  invoker :: client
  msg :: string

text \<open>
  An awaited promise of the session library either resolves with a value or rejects;
  a rejection at an \<open>await\<close> ends the enclosing async callback.
\<close>

datatype 'a awaited = Resolved 'a | Rejected

text \<open>
  What the call \<open>client.message(msg)\<close> does: throw synchronously, or return a promise
  that later rejects, or return a promise that resolves.
\<close>

datatype send_outcome = SendThrows | SendRejects | SendResolves

text \<open>The two texts the bot sends (lines 83 and 138).\<close>

datatype bot_text = StopAck | IdleNotice string

datatype level = Debug | Info | Warn | Error

text \<open>One constructor for each \<open>logger\<close> call of the handlers, with the values it prints.\<close>

datatype log_line =
    ClosePayload string
  | ConnectionLost
  | Reconnected
  | SawMessage string string
  | ProtectionRequest string string
  | NewProtectionList "string list"
  | SomethingWentWrong string
  | CheckingProtectionList
  | CurrentProtectionList "string list"
  | NoLongerProtected string
  | CheckingIdleClients
  | UnableToFindLobby
  | IsProtected string
  | WillBeMoved string int
  | SendingMessage string bot_text
  | ErrorWhenSending

text \<open>
  Everything a handler does to the outside, in the order it does it.
  \<open>UnhandledRejection\<close> marks a promise that rejects with no handler attached.
\<close>

datatype effect =
    Log level log_line
  | Reconnect int int
  | Message string bot_text
  | Move string string
  | Exit int
  | InsertClientInfo int client
  | UnhandledRejection

text \<open>How an async callback ends.\<close>

datatype ending = Completed | Exited int | Threw

section \<open>The registry operations\<close>

definition Map_has :: "registry \<Rightarrow> string \<Rightarrow> bool" where
  "Map_has reg k = (map_of reg k \<noteq> None)"

definition Map_set :: "registry \<Rightarrow> string \<Rightarrow> int \<Rightarrow> registry" where
  "Map_set reg k v = AList.update k v reg"

definition Map_delete :: "registry \<Rightarrow> string \<Rightarrow> registry" where
  "Map_delete reg k = AList.delete k reg"

definition Map_keys :: "registry \<Rightarrow> string list" where
  "Map_keys reg = map fst reg"

text \<open>\<open>formatProtectedUsers\<close> joins the keys; the model keeps the list of keys.\<close>

definition formatProtectedUsers :: "registry \<Rightarrow> string list" where
  "formatProtectedUsers reg = Map_keys reg"

section \<open>The date library\<close>

text \<open>
  \<open>date.addHours(d, h)\<close> is the date \<open>h\<close> hours after \<open>d\<close>; \<open>date.subtract(a, b)\<close> is the
  difference \<open>a - b\<close> in milliseconds, and \<open>toMinutes()\<close> divides it by 60000 without
  rounding.
\<close>

definition addHours :: "int \<Rightarrow> int \<Rightarrow> int" where
  "addHours d h = d + h * 3600000"

definition subtract :: "int \<Rightarrow> int \<Rightarrow> int" where
  "subtract a b = a - b"

definition toMinutes :: "int \<Rightarrow> rat" where
  "toMinutes delta = of_int delta / 60000"

section \<open>Sending a message: \<open>trySendMessage\<close> (lines 164-171)\<close>

text \<open>
  The call \<open>client.message(msg)\<close> is inside \<open>try\<close> but is not awaited: the \<open>catch\<close> block
  runs only when the call throws synchronously. A promise that rejects later is left
  with no handler. In every case \<open>trySendMessage\<close> itself returns normally.
\<close>

definition trySendMessage :: "send_outcome \<Rightarrow> client \<Rightarrow> bot_text \<Rightarrow> effect list" where
  "trySendMessage oc c m =
     [Log Debug (SendingMessage (nickname c) m), Message (clid c) m] @
     (case oc of
        SendThrows \<Rightarrow> [Log Warn ErrorWhenSending]
      | SendRejects \<Rightarrow> [UnhandledRejection]
      | SendResolves \<Rightarrow> [])"

section \<open>The \<open>close\<close> and \<open>error\<close> handlers (lines 67-72, 97-99)\<close>

definition onClose :: "string \<Rightarrow> unit awaited \<Rightarrow> effect list \<times> ending" where
  "onClose err rc =
     (let pre = [Log Warn (ClosePayload err), Log Warn ConnectionLost, Reconnect (- 1) 1000]
      in case rc of
           Rejected \<Rightarrow> (pre, Threw)
         | Resolved _ \<Rightarrow> (pre @ [Log Warn Reconnected], Completed))"

definition onError :: "string \<Rightarrow> effect list \<times> ending" where
  "onError err = ([Log Error (SomethingWentWrong err)], Completed)"

section \<open>The \<open>textmessage\<close> handler (lines 74-86)\<close>

definition startsWith :: "string \<Rightarrow> string \<Rightarrow> bool" where
  "startsWith s p = (take (length p) s = p)"

text \<open>\<open>me\<close> is \<open>me.clientId\<close>, \<open>now\<close> the value of \<open>new Date()\<close> at line 81.\<close>

definition onTextMessage ::
  "string \<Rightarrow> registry \<Rightarrow> text_event \<Rightarrow> int \<Rightarrow> send_outcome \<Rightarrow> effect list \<times> registry" where
  "onTextMessage me reg e now oc =
     (if targetmode e = CLIENT \<or> clid (invoker e) \<noteq> me then
        (if startsWith (msg e) ''!stop'' then
           (let reg' = Map_set reg (clid (invoker e)) (addHours now 3)
            in ([Log Debug (SawMessage (nickname (invoker e)) (msg e)),
                 Log Info (ProtectionRequest (nickname (invoker e)) (clid (invoker e))),
                 Log Info (NewProtectionList (formatProtectedUsers reg'))]
                @ trySendMessage oc (invoker e) StopAck, reg'))
         else ([Log Debug (SawMessage (nickname (invoker e)) (msg e))], reg))
      else ([], reg))"

section \<open>The \<open>clientconnect\<close> handler (lines 88-90, 177-193)\<close>

text \<open>One row is inserted, stamped with \<open>getCurrentUnixTime()\<close>; the registry is not read.\<close>

definition handleClientListChange :: "int \<Rightarrow> client \<Rightarrow> effect list" where
  "handleClientListChange now c = [InsertClientInfo now c]"

section \<open>The timer callback (lines 101-144)\<close>

text \<open>
  The delay given to \<open>setInterval\<close> (line 144), \<open>idletime * 1000\<close>, and the bound of
  line 129, \<open>idletime * 60 * 1000\<close>, which JavaScript evaluates from the left: each
  product is rounded to a double.
\<close>

definition sweepPeriod :: "config \<Rightarrow> number" where
  "sweepPeriod cfg = js_times (idletime cfg) (Finite 1000)"

definition idleThreshold :: "config \<Rightarrow> number" where
  "idleThreshold cfg = js_times (js_times (idletime cfg) (Finite 60)) (Finite 1000)"

text \<open>
  The purge of lines 110-115. \<open>forEach\<close> visits the entries in insertion order; the
  callback deletes the entry it is visiting when \<open>now - v\<close> is positive in minutes.
\<close>

fun forEach_purge :: "int \<Rightarrow> registry \<Rightarrow> registry \<Rightarrow> effect list \<times> registry" where
  "forEach_purge now [] reg = ([], reg)"
| "forEach_purge now ((k, v) # rest) reg =
     (if toMinutes (subtract now v) > 0 then
        (case forEach_purge now rest (Map_delete reg k) of
           (logs, reg') \<Rightarrow> (Log Info (NoLongerProtected k) # logs, reg'))
      else forEach_purge now rest reg)"

definition purge :: "int \<Rightarrow> registry \<Rightarrow> effect list \<times> registry" where
  "purge now reg = forEach_purge now reg reg"

text \<open>
  What the callback receives from outside in one cycle: the clock reading of line 108,
  the results of \<open>clientList\<close> and \<open>getChannelByName("Lobby")\<close>, and for each client what
  \<open>client.message\<close> and \<open>client.move\<close> do.
\<close>

record sweep_env =
  env_now :: int
  env_clientList :: "client list awaited"
  env_lobby :: "channel option awaited"
  env_message :: "client \<Rightarrow> send_outcome"
  env_move :: "client \<Rightarrow> unit awaited"


text \<open>
  The body of the loop of lines 126-143 for one client, with the registry as it is
  when line 130 runs: its effects, and how it ends. The loop goes on (\<open>Completed\<close>)
  unless the client was notified and moved and one of the two failed. A notification
  that rejects has no handler: the runtime ends the process with status 1 while the
  callback waits for the move. An awaited move that rejects ends the callback
  (\<open>Threw\<close>).
\<close>

definition sweepClient ::
  "config \<Rightarrow> sweep_env \<Rightarrow> channel \<Rightarrow> registry \<Rightarrow> client \<Rightarrow> effect list \<times> ending" where
  "sweepClient cfg env lobby reg c =
     (if cid c \<noteq> ch_cid lobby then
        (if js_gt (Finite (of_int (idleTime c))) (idleThreshold cfg) then
           (if Map_has reg (clid c) then ([Log Debug (IsProtected (clid c))], Completed)
            else
              ([Log Info (WillBeMoved (nickname c) (idleTime c))]
               @ trySendMessage (env_message env c) c (IdleNotice (nickname c))
               @ [Move (clid c) (ch_cid lobby)],
               (case env_message env c of
                  SendRejects \<Rightarrow> Exited 1
                | _ \<Rightarrow> (case env_move env c of Rejected \<Rightarrow> Threw | Resolved _ \<Rightarrow> Completed))))
         else ([], Completed))
      else ([], Completed))"

fun sweepLoop ::
  "config \<Rightarrow> sweep_env \<Rightarrow> channel \<Rightarrow> registry \<Rightarrow> client list \<Rightarrow> effect list \<times> ending" where
  "sweepLoop cfg env lobby reg [] = ([], Completed)"
| "sweepLoop cfg env lobby reg (c # cs) =
     (case sweepClient cfg env lobby reg c of
        (es, Completed) \<Rightarrow>
          (case sweepLoop cfg env lobby reg cs of (es', e) \<Rightarrow> (es @ es', e))
      | (es, e) \<Rightarrow> (es, e))"

text \<open>
  One cycle. The purge runs first; the registry it leaves is the one the loop reads,
  and the loop only reads it. \<open>exit(1)\<close> ends the process before the loop. The cycle
  is taken as a whole: handlers of other events that would run while the callback
  waits at an \<open>await\<close> are not interleaved with it.
\<close>

definition sweep :: "config \<Rightarrow> registry \<Rightarrow> sweep_env \<Rightarrow> effect list \<times> registry \<times> ending" where
  "sweep cfg reg env =
     (case purge (env_now env) reg of
        (plogs, reg') \<Rightarrow>
          (let pre = [Log Debug CheckingProtectionList,
                      Log Debug (CurrentProtectionList (formatProtectedUsers reg))]
                     @ plogs @ [Log Debug CheckingIdleClients]
           in case env_clientList env of
                Rejected \<Rightarrow> (pre, reg', Threw)
              | Resolved clients \<Rightarrow>
                  (case env_lobby env of
                     Rejected \<Rightarrow> (pre, reg', Threw)
                   | Resolved None \<Rightarrow>
                       (pre @ [Log Error UnableToFindLobby, Exit 1], reg', Exited 1)
                   | Resolved (Some lobby) \<Rightarrow>
                       (case sweepLoop cfg env lobby reg' clients of
                          (es, e) \<Rightarrow> (pre @ es, reg', e)))))"

text \<open>The moves among a list of effects, in order: who is moved, and where to.\<close>

fun moves :: "effect list \<Rightarrow> (string \<times> string) list" where
  "moves [] = []"
| "moves (Move k ch # es) = (k, ch) # moves es"
| "moves (_ # es) = moves es"

section \<open>The process as a whole\<close>

text \<open>
  The events the process can meet. No listener is registered for a client
  disconnecting (lines 92-95 are commented out), so that event runs no code.
  Each event carries what its handler receives from outside. Nothing handles the
  promise of an async callback, nor a rejection left by \<open>trySendMessage\<close>: a timer
  cycle that ends by a rejection, and an acknowledgement that rejects, end the process
  with status 1. \<open>reconnect\<close> with \<open>-1\<close> attempts returns only once it has connected, so
  the ending of the \<open>close\<close> handler is not followed.
\<close>

datatype event =
    Close string "unit awaited"
  | TextMessage text_event int send_outcome
  | ClientConnect client int
  | ClientDisconnect client
  | ErrorEvent string
  | Timer sweep_env

record bot =
  protectedUsers :: registry
  exited :: "int option"

definition step :: "config \<Rightarrow> string \<Rightarrow> bot \<Rightarrow> event \<Rightarrow> effect list \<times> bot" where
  "step cfg me b ev =
     (if exited b \<noteq> None then ([], b)
      else case ev of
        Close err rc \<Rightarrow> (fst (onClose err rc), b)
      | TextMessage e now oc \<Rightarrow>
          (case onTextMessage me (protectedUsers b) e now oc of
             (es, reg') \<Rightarrow>
               (es, b\<lparr>protectedUsers := reg',
                       exited := (if UnhandledRejection \<in> set es then Some 1 else None)\<rparr>))
      | ClientConnect c now \<Rightarrow> (handleClientListChange now c, b)
      | ClientDisconnect c \<Rightarrow> ([], b)
      | ErrorEvent err \<Rightarrow> (fst (onError err), b)
      | Timer env \<Rightarrow>
          (case sweep cfg (protectedUsers b) env of
             (es, reg', e) \<Rightarrow>
               (es, b\<lparr>protectedUsers := reg',
                       exited := (case e of Exited n \<Rightarrow> Some n | Threw \<Rightarrow> Some 1
                                  | Completed \<Rightarrow> None)\<rparr>)))"

fun run :: "config \<Rightarrow> string \<Rightarrow> bot \<Rightarrow> event list \<Rightarrow> effect list \<times> bot" where
  "run cfg me b [] = ([], b)"
| "run cfg me b (ev # evs) =
     (case step cfg me b ev of
        (es, b') \<Rightarrow> (case run cfg me b' evs of (es', b'') \<Rightarrow> (es @ es', b'')))"

section \<open>Properties\<close>

subsection \<open>Rounding\<close>

lemma round_half_even_int: "round_half_even (of_int j) = j"
  by (simp add: round_half_even_def)

text \<open>An integer below \<open>2\<^sup>5\<^sup>3\<close> in absolute value is a double: rounding leaves it as it is.\<close>

lemma round_double_of_int:
  assumes "\<bar>m\<bar> < 2 ^ 53"
  shows "round_double (of_int m) = Finite (of_int m)"
proof (cases "m = 0")
  case True
  then show ?thesis by (simp add: round_double_def)
next
  case False
  then have pos: "0 < \<bar>m\<bar>" by simp
  define e where "e = bitlen \<bar>m\<bar> - 1"
  have "(1 :: rat) \<le> of_int \<bar>m\<bar>" using pos by simp
  then have fl: "floor_log2 \<bar>of_int m\<bar> = e"
    unfolding e_def floor_log2_def by (simp flip: of_int_abs)
  from bitlen_bounds [OF pos] have lo: "2 ^ nat e \<le> \<bar>m\<bar>" by (simp add: e_def)
  have "bitlen \<bar>m\<bar> \<noteq> 0" using pos by (simp add: bitlen_eq_zero_iff)
  with bitlen_nonneg [of "\<bar>m\<bar>"] have e0: "0 \<le> e" by (simp add: e_def)
  from lo assms have p: "(2 :: int) ^ nat e < 2 ^ 53" by linarith
  have "nat e < 53"
    by (rule power_less_imp_less_exp [where a = "2 :: int"], simp, fact p)
  then have e52: "e \<le> 52" by linarith
  define k where "k = nat (52 - e)"
  have u: "pow2 (max e (- 1022) - 52) = 1 / 2 ^ k"
  proof (cases "e = 52")
    case True
    then show ?thesis by (simp add: pow2_def k_def)
  next
    case False
    with e52 have "e < 52" by simp
    with e0 show ?thesis by (simp add: pow2_def k_def max_def)
  qed
  have "of_int \<bar>m\<bar> < (of_int (2 ^ 53) :: rat)"
    using assms by (simp only: of_int_less_iff)
  then have "\<bar>of_int m :: rat\<bar> < 2 ^ 53" by simp
  also have "(2 :: rat) ^ 53 \<le> pow2 1024" by (simp add: pow2_def)
  finally have small: "\<not> pow2 1024 \<le> \<bar>of_int m :: rat\<bar>" by simp
  have rh: "round_half_even (rat_of_int m * 2 ^ k) = m * 2 ^ k"
    using round_half_even_int [of "m * 2 ^ k"] by simp
  show ?thesis
    using False small by (simp add: round_double_def fl u rh Let_def)
qed

lemma js_times_of_int:
  assumes "\<bar>a * b\<bar> < 2 ^ 53"
  shows "js_times (Finite (of_int a)) (Finite (of_int b)) = Finite (of_int (a * b))"
  using round_double_of_int [OF assms] by simp

lemma sweepPeriod_of_int:
  assumes "idletime cfg = Finite (of_int n)" and "\<bar>n\<bar> * 60000 < 2 ^ 53"
  shows "sweepPeriod cfg = Finite (of_int (n * 1000))"
proof -
  have "\<bar>n * 1000\<bar> < 2 ^ 53" using assms(2) by (simp add: abs_mult)
  from js_times_of_int [OF this] show ?thesis
    by (simp add: sweepPeriod_def assms(1))
qed

lemma idleThreshold_of_int:
  assumes "idletime cfg = Finite (of_int n)" and "\<bar>n\<bar> * 60000 < 2 ^ 53"
  shows "idleThreshold cfg = Finite (of_int (n * 60 * 1000))"
proof -
  have a: "\<bar>n * 60\<bar> < 2 ^ 53" using assms(2) by (simp add: abs_mult)
  have b: "\<bar>n * 60 * 1000\<bar> < 2 ^ 53" using assms(2) by (simp add: abs_mult)
  have "js_times (Finite (of_int n)) (Finite 60) = Finite (of_int (n * 60))"
    using js_times_of_int [OF a] by simp
  moreover have "js_times (Finite (of_int (n * 60))) (Finite 1000) = Finite (of_int (n * 60 * 1000))"
    using js_times_of_int [OF b] by simp
  ultimately show ?thesis
    by (simp add: idleThreshold_def assms(1))
qed

lemma idleThreshold_ten: "idletime cfg = Finite 10 \<Longrightarrow> idleThreshold cfg = Finite 600000"
  using idleThreshold_of_int [of cfg 10] by simp

lemma sweepPeriod_ten: "idletime cfg = Finite 10 \<Longrightarrow> sweepPeriod cfg = Finite 10000"
  using sweepPeriod_of_int [of cfg 10] by simp

text \<open>
  Evaluation of the rounding on numerals, and the products at three configured values:
  \<open>4.1\<close>, where the threshold falls just below 246000; \<open>2\<^sup>5\<^sup>3 - 1\<close>, where the period is
  rounded; \<open>2\<^sup>1\<^sup>0\<^sup>2\<^sup>0\<close>, where both products overflow.
\<close>

lemma bitlen_numeral_simps:
  "bitlen 1 = 1"
  "bitlen (numeral Num.One) = 1"
  "bitlen (numeral (Num.Bit0 n)) = bitlen (numeral n) + 1"
  "bitlen (numeral (Num.Bit1 n)) = bitlen (numeral n) + 1"
proof -
  show "bitlen 1 = 1" by (subst compute_bitlen) simp
  then show "bitlen (numeral Num.One) = 1" by simp
  have "bitlen (numeral (Num.Bit0 n)) = bitlen (numeral (Num.Bit0 n) div 2) + 1"
    by (subst compute_bitlen) simp
  then show "bitlen (numeral (Num.Bit0 n)) = bitlen (numeral n) + 1" by simp
  have "bitlen (numeral (Num.Bit1 n)) = bitlen (numeral (Num.Bit1 n) div 2) + 1"
    by (subst compute_bitlen) simp
  then show "bitlen (numeral (Num.Bit1 n)) = bitlen (numeral n) + 1" by simp
qed

lemma floor_rat_numeral_simps:
  "\<lfloor>numeral a / numeral b :: rat\<rfloor> = numeral a div numeral b"
  "\<lfloor>1 / numeral b :: rat\<rfloor> = 1 div numeral b"
  "\<lceil>numeral a / numeral b :: rat\<rceil> = - (- numeral a div numeral b)"
  "\<lceil>1 / numeral b :: rat\<rceil> = - (- 1 div numeral b)"
proof -
  show "\<lfloor>numeral a / numeral b :: rat\<rfloor> = numeral a div numeral b"
    using floor_divide_of_int_eq [of "numeral a" "numeral b", where ?'a = rat] by simp
  show "\<lfloor>1 / numeral b :: rat\<rfloor> = 1 div numeral b"
    using floor_divide_of_int_eq [of 1 "numeral b", where ?'a = rat] by simp
  show "\<lceil>numeral a / numeral b :: rat\<rceil> = - (- numeral a div numeral b)"
    using ceiling_divide_eq_div [of "numeral a" "numeral b", where ?'a = rat] by simp
  show "\<lceil>1 / numeral b :: rat\<rceil> = - (- 1 div numeral b)"
    using ceiling_divide_eq_div [of 1 "numeral b", where ?'a = rat] by simp
qed

lemmas round_double_eval =
  round_double_def floor_log2_def round_half_even_def pow2_def Let_def
  bitlen_numeral_simps floor_rat_numeral_simps

lemma idletime_4_1:
  "round_double (41 / 10) = Finite (2308094809027379 / 562949953421312)
   \<and> idleThreshold \<lparr>idletime = round_double (41 / 10)\<rparr> = Finite (8452495638527999 / 34359738368)
   \<and> js_gt (Finite 246000) (idleThreshold \<lparr>idletime = round_double (41 / 10)\<rparr>)
   \<and> sweepPeriod \<lparr>idletime = round_double (41 / 10)\<rparr> = Finite 4100"
  by (simp add: idleThreshold_def sweepPeriod_def round_double_eval)

lemma idletime_2_53:
  "sweepPeriod \<lparr>idletime = Finite (2 ^ 53 - 1)\<rparr> = Finite 9007199254740990976"
  by (simp add: sweepPeriod_def round_double_eval)

lemma idletime_2_1020:
  "sweepPeriod \<lparr>idletime = Finite (2 ^ 1020)\<rparr> = PosInf
   \<and> idleThreshold \<lparr>idletime = Finite (2 ^ 1020)\<rparr> = PosInf"
  by (simp add: idleThreshold_def sweepPeriod_def round_double_eval)

subsection \<open>The purge, the loop and the moves they issue\<close>

lemma toMinutes_pos: "(toMinutes (subtract now v) > 0) = (v < now)"
  by (simp add: toMinutes_def subtract_def)

lemma Map_delete_filter: "Map_delete reg k = filter (\<lambda>p. fst p \<noteq> k) reg"
  by (induction reg) (auto simp: Map_delete_def)

lemma forEach_purge_snd:
  "snd (forEach_purge now es reg) =
     filter (\<lambda>p. fst p \<notin> set (map fst (filter (\<lambda>e. snd e < now) es))) reg"
proof (induction es arbitrary: reg)
  case Nil
  show ?case by simp
next
  case (Cons e es)
  obtain k v where e: "e = (k, v)" by (cases e)
  show ?case
  proof (cases "v < now")
    case True
    have "snd (forEach_purge now (e # es) reg) = snd (forEach_purge now es (Map_delete reg k))"
      using True by (simp add: e toMinutes_pos split: prod.splits)
    also have "\<dots> = filter (\<lambda>p. fst p \<notin> set (map fst (filter (\<lambda>e. snd e < now) es)))
                      (filter (\<lambda>p. fst p \<noteq> k) reg)"
      by (simp add: Cons.IH Map_delete_filter)
    also have "\<dots> = filter (\<lambda>p. fst p \<notin> set (map fst (filter (\<lambda>e. snd e < now) (e # es)))) reg"
      using True by (auto simp: e intro!: filter_cong)
    finally show ?thesis .
  next
    case False
    have "snd (forEach_purge now (e # es) reg) = snd (forEach_purge now es reg)"
      using False by (simp add: e toMinutes_pos)
    also have "\<dots> = filter (\<lambda>p. fst p \<notin> set (map fst (filter (\<lambda>e. snd e < now) (e # es)))) reg"
      using False by (auto simp: Cons.IH e intro!: filter_cong)
    finally show ?thesis .
  qed
qed

lemma purge_registry:
  assumes "distinct (map fst reg)"
  shows "snd (purge now reg) = filter (\<lambda>p. \<not> snd p < now) reg"
proof -
  have "fst p \<notin> set (map fst (filter (\<lambda>e. snd e < now) reg)) \<longleftrightarrow> \<not> snd p < now" if "p \<in> set reg" for p
  proof
    assume a: "fst p \<notin> set (map fst (filter (\<lambda>e. snd e < now) reg))"
    show "\<not> snd p < now"
    proof
      assume "snd p < now"
      with that have "fst p \<in> set (map fst (filter (\<lambda>e. snd e < now) reg))" by force
      with a show False by simp
    qed
  next
    assume b: "\<not> snd p < now"
    show "fst p \<notin> set (map fst (filter (\<lambda>e. snd e < now) reg))"
    proof
      assume "fst p \<in> set (map fst (filter (\<lambda>e. snd e < now) reg))"
      then obtain q where q: "q \<in> set reg" "snd q < now" "fst q = fst p" by auto
      from assms q(1) that q(3) have "q = p"
        by (metis eq_key_imp_eq_value prod.collapse)
      with q(2) b show False by simp
    qed
  qed
  then show ?thesis
    unfolding purge_def forEach_purge_snd by (intro filter_cong) auto
qed

lemma purge_distinct:
  "distinct (map fst reg) \<Longrightarrow> distinct (map fst (snd (purge now reg)))"
  by (simp add: purge_registry distinct_map_filter)

lemma purge_map_of:
  assumes "distinct (map fst reg)"
  shows "map_of (snd (purge now reg)) k =
           (case map_of reg k of None \<Rightarrow> None | Some v \<Rightarrow> if v < now then None else Some v)"
proof (cases "map_of reg k")
  case None
  then have "k \<notin> fst ` set reg" by (simp add: map_of_eq_None_iff)
  then have "k \<notin> fst ` set (filter (\<lambda>p. \<not> snd p < now) reg)" by auto
  then have "map_of (filter (\<lambda>p. \<not> snd p < now) reg) k = None"
    by (simp add: map_of_eq_None_iff)
  with None assms show ?thesis by (simp add: purge_registry)
next
  case (Some v)
  with assms have mem: "(k, v) \<in> set reg" by simp
  have d: "distinct (map fst (filter (\<lambda>p. \<not> snd p < now) reg))"
    using assms by (simp add: distinct_map_filter)
  show ?thesis
  proof (cases "v < now")
    case True
    have "k \<notin> fst ` set (filter (\<lambda>p. \<not> snd p < now) reg)"
    proof
      assume "k \<in> fst ` set (filter (\<lambda>p. \<not> snd p < now) reg)"
      then obtain w where w: "(k, w) \<in> set reg" "\<not> w < now" by auto
      from assms w(1) mem have "w = v" by (rule eq_key_imp_eq_value)
      with w(2) True show False by simp
    qed
    then have "map_of (filter (\<lambda>p. \<not> snd p < now) reg) k = None"
      by (simp add: map_of_eq_None_iff)
    with Some True assms show ?thesis by (simp add: purge_registry)
  next
    case False
    with mem have "(k, v) \<in> set (filter (\<lambda>p. \<not> snd p < now) reg)" by simp
    with d have "map_of (filter (\<lambda>p. \<not> snd p < now) reg) k = Some v" by simp
    with Some False assms show ?thesis by (simp add: purge_registry)
  qed
qed


lemma purge_logs:
  "fst (forEach_purge now es reg) =
     map (\<lambda>p. Log Info (NoLongerProtected (fst p))) (filter (\<lambda>p. snd p < now) es)"
proof (induction es arbitrary: reg)
  case Nil
  show ?case by simp
next
  case (Cons e es)
  obtain k v where e: "e = (k, v)" by (cases e)
  show ?case by (simp add: e Cons.IH toMinutes_pos case_prod_unfold)
qed

lemma moves_append: "moves (xs @ ys) = moves xs @ moves ys"
  by (induction xs rule: moves.induct) simp_all

lemma moves_trySendMessage: "moves (trySendMessage oc c m) = []"
  by (cases oc) (simp_all add: trySendMessage_def)

lemma moves_purge: "moves (fst (forEach_purge now es reg)) = []"
  by (induction es arbitrary: reg) (auto simp: purge_logs)

lemma moves_sweepClient:
  "moves (fst (sweepClient cfg env lobby reg c)) =
     (if cid c \<noteq> ch_cid lobby \<and> js_gt (Finite (of_int (idleTime c))) (idleThreshold cfg)
         \<and> \<not> Map_has reg (clid c)
      then [(clid c, ch_cid lobby)] else [])"
  by (simp add: sweepClient_def moves_append moves_trySendMessage)


lemma sweep_registry: "fst (snd (sweep cfg reg env)) = snd (purge (env_now env) reg)"
  by (simp add: sweep_def Let_def split: prod.splits awaited.splits option.splits)

lemma Map_has_purge:
  "distinct (map fst reg) \<Longrightarrow>
     Map_has (snd (purge now reg)) k = (\<exists>v. map_of reg k = Some v \<and> now \<le> v)"
  by (cases "map_of reg k") (simp_all add: Map_has_def purge_map_of)

subsection \<open>The cycle, the message handler and the registry\<close>

lemma sweep_absent:
  assumes "env_clientList env = Resolved cs" and "env_lobby env = Resolved None"
  shows "sweep cfg reg env =
           ([Log Debug CheckingProtectionList,
             Log Debug (CurrentProtectionList (formatProtectedUsers reg))]
            @ fst (purge (env_now env) reg)
            @ [Log Debug CheckingIdleClients, Log Error UnableToFindLobby, Exit 1],
            snd (purge (env_now env) reg), Exited 1)"
  using assms by (simp add: sweep_def Let_def case_prod_unfold)

lemma run_exited: "exited b \<noteq> None \<Longrightarrow> run cfg me b evs = ([], b)"
  by (induction evs) (simp_all add: step_def)

lemma trySendMessage_warns:
  "(Log Warn ErrorWhenSending \<in> set (trySendMessage oc c m)) = (oc = SendThrows)"
  by (cases oc) (simp_all add: trySendMessage_def)

lemma Map_set_distinct:
  "distinct (map fst reg) \<Longrightarrow> distinct (map fst (Map_set reg k v))"
  by (simp add: Map_set_def distinct_update)

lemma Map_set_map_of: "map_of (Map_set reg k v) = (map_of reg)(k \<mapsto> v)"
  by (simp add: Map_set_def update_conv')

lemma onTextMessage_registry:
  "snd (onTextMessage me reg e now oc) =
     (if (targetmode e = CLIENT \<or> clid (invoker e) \<noteq> me) \<and> startsWith (msg e) ''!stop''
      then Map_set reg (clid (invoker e)) (now + 10800000) else reg)"
  by (simp add: onTextMessage_def addHours_def Let_def)

subsection \<open>Steps and runs of the process\<close>

lemma Map_has_keys: "Map_has reg k = (k \<in> set (Map_keys reg))"
  by (simp add: Map_has_def Map_keys_def map_of_eq_None_iff)

lemma step_registry:
  "protectedUsers (snd (step cfg me b ev)) =
     (if exited b \<noteq> None then protectedUsers b
      else case ev of
          TextMessage e now oc \<Rightarrow> snd (onTextMessage me (protectedUsers b) e now oc)
        | Timer env \<Rightarrow> snd (purge (env_now env) (protectedUsers b))
        | _ \<Rightarrow> protectedUsers b)"
  by (cases ev) (simp_all add: step_def case_prod_unfold sweep_registry)

lemma purge_keys: "set (Map_keys (snd (purge now reg))) \<subseteq> set (Map_keys reg)"
  by (auto simp: purge_def forEach_purge_snd Map_keys_def)

lemma onTextMessage_keys:
  "set (Map_keys (snd (onTextMessage me reg e now oc))) =
     set (Map_keys reg) \<union>
     (if (targetmode e = CLIENT \<or> clid (invoker e) \<noteq> me) \<and> startsWith (msg e) ''!stop''
      then {clid (invoker e)} else {})"
  using dom_update [of "clid (invoker e)" "now + 10800000" reg]
  by (simp add: onTextMessage_registry Map_keys_def Map_set_def)

lemma step_keys_grow:
  assumes "k \<in> set (Map_keys (protectedUsers (snd (step cfg me b ev))))"
    and "k \<notin> set (Map_keys (protectedUsers b))"
  shows "\<exists>e now oc. ev = TextMessage e now oc
           \<and> (targetmode e = CLIENT \<or> clid (invoker e) \<noteq> me)
           \<and> startsWith (msg e) ''!stop'' \<and> clid (invoker e) = k"
proof (cases ev)
  case (TextMessage e now oc)
  with assms show ?thesis
    by (auto simp: step_registry onTextMessage_keys split: if_splits)
next
  case (Timer env)
  with assms purge_keys [of "env_now env" "protectedUsers b"] show ?thesis
    by (auto simp: step_registry split: if_splits)
qed (use assms in \<open>auto simp: step_registry split: if_splits\<close>)

lemma step_keys_shrink:
  assumes "k \<in> set (Map_keys (protectedUsers b))"
    and "k \<notin> set (Map_keys (protectedUsers (snd (step cfg me b ev))))"
  shows "\<exists>env. ev = Timer env"
proof (cases ev)
  case (TextMessage e now oc)
  with assms show ?thesis
    by (auto simp: step_registry onTextMessage_keys split: if_splits)
qed (use assms in \<open>auto simp: step_registry split: if_splits\<close>)

lemma snd_run_Cons:
  "snd (run cfg me b (ev # evs)) = snd (run cfg me (snd (step cfg me b ev)) evs)"
  by (simp add: case_prod_unfold)

lemma run_keys_grow:
  assumes "k \<in> set (Map_keys (protectedUsers (snd (run cfg me b evs))))"
    and "k \<notin> set (Map_keys (protectedUsers b))"
  shows "\<exists>e now oc. TextMessage e now oc \<in> set evs
           \<and> (targetmode e = CLIENT \<or> clid (invoker e) \<noteq> me)
           \<and> startsWith (msg e) ''!stop'' \<and> clid (invoker e) = k"
  using assms
proof (induction evs arbitrary: b)
  case Nil
  then show ?case by simp
next
  case (Cons ev evs)
  let ?b' = "snd (step cfg me b ev)"
  have fin: "k \<in> set (Map_keys (protectedUsers (snd (run cfg me ?b' evs))))"
    using Cons.prems(1) unfolding snd_run_Cons .
  show ?case
  proof (cases "k \<in> set (Map_keys (protectedUsers ?b'))")
    case True
    from step_keys_grow [OF True Cons.prems(2)] show ?thesis by auto
  next
    case False
    from Cons.IH [OF fin False] show ?thesis by auto
  qed
qed

lemma run_keys_shrink:
  assumes "k \<in> set (Map_keys (protectedUsers b))"
    and "k \<notin> set (Map_keys (protectedUsers (snd (run cfg me b evs))))"
  shows "\<exists>env. Timer env \<in> set evs"
  using assms
proof (induction evs arbitrary: b)
  case Nil
  then show ?case by simp
next
  case (Cons ev evs)
  let ?b' = "snd (step cfg me b ev)"
  have fin: "k \<notin> set (Map_keys (protectedUsers (snd (run cfg me ?b' evs))))"
    using Cons.prems(2) unfolding snd_run_Cons .
  show ?case
  proof (cases "k \<in> set (Map_keys (protectedUsers ?b'))")
    case True
    from Cons.IH [OF True fin] show ?thesis by auto
  next
    case False
    from step_keys_shrink [OF Cons.prems(1) False] show ?thesis by auto
  qed
qed

lemma step_distinct:
  assumes "distinct (map fst (protectedUsers b))"
  shows "distinct (map fst (protectedUsers (snd (step cfg me b ev))))"
proof (cases ev)
  case (TextMessage e now oc)
  with assms show ?thesis
    by (simp add: step_registry onTextMessage_registry Map_set_distinct)
next
  case (Timer env)
  with assms show ?thesis
    by (simp add: step_registry purge_distinct)
qed (use assms in \<open>simp_all add: step_registry\<close>)

lemma run_distinct:
  "distinct (map fst (protectedUsers b)) \<Longrightarrow>
     distinct (map fst (protectedUsers (snd (run cfg me b evs))))"
proof (induction evs arbitrary: b)
  case Nil
  then show ?case by simp
next
  case (Cons ev evs)
  from Cons.IH [OF step_distinct [OF Cons.prems, of cfg me ev]]
  show ?case unfolding snd_run_Cons .
qed

subsection \<open>Which clients a cycle moves\<close>




subsection \<open>The timer period and the idle threshold\<close>

text \<open>
  C2 (as stated, refuted): the period of the timer is not the idle threshold. With
  \<open>idletime = 10\<close> the callback runs every 10000 ms (ten seconds), while a client's idle
  time is compared against 600000 ms (ten minutes).
\<close>

theorem C2_period_differs_from_threshold:
  "sweepPeriod \<lparr>idletime = Finite 10\<rparr> = Finite 10000
   \<and> idleThreshold \<lparr>idletime = Finite 10\<rparr> = Finite 600000"
  by (simp add: sweepPeriod_ten idleThreshold_ten)

text \<open>
  C2 (amended): both durations come from the one configured value. The delay given to
  the timer is the double product \<open>idletime * 1000\<close>; the bound the loop body compares
  a client's idle time against is the double product \<open>(idletime * 60) * 1000\<close>. For
  every integer \<open>idletime = n\<close> with \<open>60000 * |n| < 2\<^sup>5\<^sup>3\<close> both products are exact: the
  delay is \<open>n\<close> seconds, the threshold is \<open>n\<close> minutes, that is sixty times the delay, and
  the two are equal only for \<open>n = 0\<close>.
\<close>

theorem C2_threshold_is_sixty_periods:
  "sweepPeriod cfg = js_times (idletime cfg) (Finite 1000)
   \<and> idleThreshold cfg = js_times (js_times (idletime cfg) (Finite 60)) (Finite 1000)
   \<and> (idletime cfg = Finite (of_int n) \<and> \<bar>n\<bar> * 60000 < 2 ^ 53
      \<longrightarrow> sweepPeriod cfg = Finite (of_int (n * 1000))
          \<and> idleThreshold cfg = Finite (of_int (n * 60 * 1000))
          \<and> idleThreshold cfg = Finite (60 * of_int (n * 1000))
          \<and> (sweepPeriod cfg = idleThreshold cfg) = (n = 0))
   \<and> (moves (fst (sweepClient cfg env lobby []
          \<lparr>clid = k, cid = ch, idleTime = t, nickname = nm\<rparr>)) = [(k, ch_cid lobby)])
      = (ch \<noteq> ch_cid lobby \<and> js_gt (Finite (of_int t)) (idleThreshold cfg))"
proof (intro conjI impI)
  show "sweepPeriod cfg = js_times (idletime cfg) (Finite 1000)"
    by (simp add: sweepPeriod_def)
  show "idleThreshold cfg = js_times (js_times (idletime cfg) (Finite 60)) (Finite 1000)"
    by (simp add: idleThreshold_def)
  show "(moves (fst (sweepClient cfg env lobby []
          \<lparr>clid = k, cid = ch, idleTime = t, nickname = nm\<rparr>)) = [(k, ch_cid lobby)])
      = (ch \<noteq> ch_cid lobby \<and> js_gt (Finite (of_int t)) (idleThreshold cfg))"
    by (simp add: moves_sweepClient Map_has_def)
next
  assume a: "idletime cfg = Finite (of_int n) \<and> \<bar>n\<bar> * 60000 < 2 ^ 53"
  then have p: "sweepPeriod cfg = Finite (of_int (n * 1000))"
    using sweepPeriod_of_int [of cfg n] by simp
  from a have t: "idleThreshold cfg = Finite (of_int (n * 60 * 1000))"
    using idleThreshold_of_int [of cfg n] by simp
  show "sweepPeriod cfg = Finite (of_int (n * 1000))" by (rule p)
  show "idleThreshold cfg = Finite (of_int (n * 60 * 1000))" by (rule t)
  show "idleThreshold cfg = Finite (60 * of_int (n * 1000))" by (simp add: t)
  show "(sweepPeriod cfg = idleThreshold cfg) = (n = 0)" by (simp add: p t)
qed

theorem C2_threshold_is_sixty_periods_witness:
  "sweepPeriod \<lparr>idletime = Finite 30\<rparr> = Finite 30000
   \<and> idleThreshold \<lparr>idletime = Finite 30\<rparr> = Finite 1800000"
proof -
  have a: "idletime \<lparr>idletime = Finite 30\<rparr> = Finite (of_int 30) \<and> \<bar>30 :: int\<bar> * 60000 < 2 ^ 53"
    by simp
  from C2_threshold_is_sixty_periods [where cfg = "\<lparr>idletime = Finite 30\<rparr>" and n = 30] a
  have "sweepPeriod \<lparr>idletime = Finite 30\<rparr> = Finite (of_int (30 * 1000))
        \<and> idleThreshold \<lparr>idletime = Finite 30\<rparr> = Finite (of_int (30 * 60 * 1000))"
    by blast
  then show ?thesis by simp
qed

subsection \<open>The filter of the command handler\<close>

text \<open>
  C3 (as stated, refuted): the guard of line 76 lets every message with target mode
  \<open>CLIENT\<close> through, the bot's own included, and stops the bot's own messages in the
  other target modes. With \<open>me.clientId = "1"\<close>, a direct message \<open>!stop\<close> whose invoker
  is client 1 is processed (it grants protection to client 1), and the same message
  from client 1 with target mode \<open>CHANNEL\<close> does nothing.
\<close>

theorem C3_own_direct_message_is_processed:
  "snd (onTextMessage ''1'' []
      \<lparr>targetmode = CLIENT,
       invoker = \<lparr>clid = ''1'', cid = ''5'', idleTime = 0, nickname = ''warden''\<rparr>,
       msg = ''!stop''\<rparr> 0 SendResolves) = [(''1'', 10800000)]
   \<and> onTextMessage ''1'' []
      \<lparr>targetmode = CHANNEL,
       invoker = \<lparr>clid = ''1'', cid = ''5'', idleTime = 0, nickname = ''warden''\<rparr>,
       msg = ''!stop''\<rparr> 0 SendResolves = ([], [])"
  by (simp add: onTextMessage_def startsWith_def Map_set_def addHours_def Let_def)

text \<open>
  C3 (amended): the handler does nothing at all iff the target mode is not \<open>CLIENT\<close> and
  the sender is the bot itself. Every message from another sender, and every message
  with target mode \<open>CLIENT\<close> whoever sent it, is processed; processing grants protection
  iff the text starts with \<open>!stop\<close>.
\<close>

theorem C3_handler_filter:
  "(onTextMessage me reg e now oc = ([], reg)) = (targetmode e \<noteq> CLIENT \<and> clid (invoker e) = me)
   \<and> snd (onTextMessage me reg e now oc) =
       (if (targetmode e = CLIENT \<or> clid (invoker e) \<noteq> me) \<and> startsWith (msg e) ''!stop''
        then Map_set reg (clid (invoker e)) (now + 10800000) else reg)"
proof (intro conjI)
  show "(onTextMessage me reg e now oc = ([], reg)) = (targetmode e \<noteq> CLIENT \<and> clid (invoker e) = me)"
    by (auto simp: onTextMessage_def Let_def)
  show "snd (onTextMessage me reg e now oc) =
       (if (targetmode e = CLIENT \<or> clid (invoker e) \<noteq> me) \<and> startsWith (msg e) ''!stop''
        then Map_set reg (clid (invoker e)) (now + 10800000) else reg)"
    by (rule onTextMessage_registry)
qed

theorem C3_handler_filter_witness:
  "onTextMessage ''1'' [(''4'', 7)]
      \<lparr>targetmode = SERVER,
       invoker = \<lparr>clid = ''1'', cid = ''5'', idleTime = 0, nickname = ''warden''\<rparr>,
       msg = ''!stop''\<rparr> 0 SendResolves = ([], [(''4'', 7)])
   \<and> snd (onTextMessage ''1'' [(''4'', 7)]
      \<lparr>targetmode = SERVER,
       invoker = \<lparr>clid = ''2'', cid = ''5'', idleTime = 0, nickname = ''guest''\<rparr>,
       msg = ''!stop now''\<rparr> 50 SendResolves) = [(''4'', 7), (''2'', 10800050)]"
  using C3_handler_filter [of "''1''" "[(''4'', 7)]"
      "\<lparr>targetmode = SERVER,
       invoker = \<lparr>clid = ''1'', cid = ''5'', idleTime = 0, nickname = ''warden''\<rparr>,
       msg = ''!stop''\<rparr>" 0 SendResolves]
    C3_handler_filter [of "''1''" "[(''4'', 7)]"
      "\<lparr>targetmode = SERVER,
       invoker = \<lparr>clid = ''2'', cid = ''5'', idleTime = 0, nickname = ''guest''\<rparr>,
       msg = ''!stop now''\<rparr>" 50 SendResolves]
  by (simp add: startsWith_def Map_set_def)

subsection \<open>The protection check\<close>

text \<open>
  C4 (as stated, refuted): the check \<open>protectedUsers.has\<close> does not look at the expiry.
  An entry that expired at instant 100 and has not been purged yet still answers true
  at instant 200.
\<close>

theorem C4_expired_entry_still_protected:
  "Map_has [(''7'', 100)] ''7'' = True
   \<and> map_of [(''7'', 100 :: int)] ''7'' = Some 100
   \<and> (100 :: int) < 200"
  by (simp add: Map_has_def)

text \<open>
  C4 (amended): the check is true iff the registry holds an entry for the identity,
  whatever its expiry. Expiry enters only through the purge that opens each cycle:
  on the registry the purge leaves at instant \<open>now\<close>, the check is true iff the registry
  before the purge held an entry with \<open>now \<le> expiry\<close>. The check does not change the
  registry: at the end of a cycle the registry is the one the purge left.
\<close>

theorem C4_check_is_membership:
  assumes "distinct (map fst reg)"
  shows "Map_has reg k = (\<exists>v. map_of reg k = Some v)
         \<and> Map_has (snd (purge now reg)) k = (\<exists>v. map_of reg k = Some v \<and> now \<le> v)
         \<and> fst (snd (sweep cfg reg env)) = snd (purge (env_now env) reg)"
  using assms by (simp add: Map_has_purge sweep_registry) (simp add: Map_has_def)

theorem C4_check_is_membership_witness:
  "distinct (map fst [(''7'', 100 :: int), (''8'', 300)])
   \<and> Map_has [(''7'', 100), (''8'', 300)] ''7''
   \<and> \<not> Map_has (snd (purge 200 [(''7'', 100), (''8'', 300)])) ''7''
   \<and> Map_has (snd (purge 200 [(''7'', 100), (''8'', 300)])) ''8''"
  using C4_check_is_membership [of "[(''7'', 100), (''8'', 300)]" "''7''" 200]
        C4_check_is_membership [of "[(''7'', 100), (''8'', 300)]" "''8''" 200]
  by simp

subsection \<open>The purge\<close>

text \<open>
  C5 (as stated, refuted): an entry whose expiry equals \<open>now\<close> is not removed. The test
  of line 111 is \<open>now - expiry > 0\<close>, which is false when the two are equal.
\<close>

theorem C5_entry_expiring_now_is_kept:
  "snd (purge 1000 [(''7'', 1000)]) = [(''7'', 1000)]"
  by (simp add: purge_def toMinutes_pos)

text \<open>
  C5 (amended): the purge removes exactly the entries whose expiry is strictly before
  \<open>now\<close>. Every entry with \<open>expiry < now\<close> is deleted (and one line is logged for it, in
  insertion order); every entry with \<open>now \<le> expiry\<close> is kept with its expiry and its
  position.
\<close>

theorem C5_purge_removes_strictly_expired:
  assumes "distinct (map fst reg)"
  shows "snd (purge now reg) = filter (\<lambda>p. now \<le> snd p) reg
         \<and> map_of (snd (purge now reg)) k =
             (case map_of reg k of None \<Rightarrow> None
              | Some v \<Rightarrow> if v < now then None else Some v)
         \<and> fst (purge now reg) =
             map (\<lambda>p. Log Info (NoLongerProtected (fst p))) (filter (\<lambda>p. snd p < now) reg)"
proof (intro conjI)
  show "snd (purge now reg) = filter (\<lambda>p. now \<le> snd p) reg"
    using assms by (simp add: purge_registry not_less)
  show "map_of (snd (purge now reg)) k =
          (case map_of reg k of None \<Rightarrow> None | Some v \<Rightarrow> if v < now then None else Some v)"
    using assms by (rule purge_map_of)
  show "fst (purge now reg) =
          map (\<lambda>p. Log Info (NoLongerProtected (fst p))) (filter (\<lambda>p. snd p < now) reg)"
    by (simp add: purge_def purge_logs)
qed

theorem C5_purge_removes_strictly_expired_witness:
  "distinct (map fst [(''7'', 100 :: int), (''8'', 200), (''9'', 300)])
   \<and> snd (purge 200 [(''7'', 100), (''8'', 200), (''9'', 300)]) = [(''8'', 200), (''9'', 300)]
   \<and> fst (purge 200 [(''7'', 100), (''8'', 200), (''9'', 300)]) = [Log Info (NoLongerProtected ''7'')]"
  using C5_purge_removes_strictly_expired [of "[(''7'', 100), (''8'', 200), (''9'', 300)]" 200 "''7''"]
  by simp

subsection \<open>Granting protection\<close>

text \<open>
  C6: a message that passes the filter and starts with \<open>!stop\<close> sets the sender's entry
  to \<open>now\<close> plus three hours (10800000 ms), inserting it or overwriting the one there,
  whatever becomes of the acknowledgement. A second grant to the same identity leaves
  one entry, whose expiry is the second instant plus three hours: the registry is the
  one a single grant at the second instant gives. In a later cycle at instant \<open>t\<close> the
  check after the purge is true iff \<open>t\<close> is not after the latest grant's expiry.
\<close>

theorem C6_grant_replaces:
  assumes g1: "targetmode e1 = CLIENT \<or> clid (invoker e1) \<noteq> me" "startsWith (msg e1) ''!stop''"
    and g2: "targetmode e2 = CLIENT \<or> clid (invoker e2) \<noteq> me" "startsWith (msg e2) ''!stop''"
    and same: "clid (invoker e2) = clid (invoker e1)"
    and d: "distinct (map fst reg)"
  shows "snd (onTextMessage me reg e1 t1 oc1) = Map_set reg (clid (invoker e1)) (t1 + 3 * 3600000)
    \<and> map_of (snd (onTextMessage me reg e1 t1 oc1)) = (map_of reg)(clid (invoker e1) \<mapsto> t1 + 10800000)
    \<and> map_of (snd (onTextMessage me (snd (onTextMessage me reg e1 t1 oc1)) e2 t2 oc2))
        = (map_of reg)(clid (invoker e1) \<mapsto> t2 + 10800000)
    \<and> Map_keys (snd (onTextMessage me (snd (onTextMessage me reg e1 t1 oc1)) e2 t2 oc2))
        = Map_keys (snd (onTextMessage me reg e1 t1 oc1))
    \<and> Map_has (snd (purge t (snd (onTextMessage me (snd (onTextMessage me reg e1 t1 oc1)) e2 t2 oc2))))
          (clid (invoker e1)) = (t \<le> t2 + 10800000)"
proof -
  let ?k = "clid (invoker e1)"
  let ?r1 = "snd (onTextMessage me reg e1 t1 oc1)"
  let ?r2 = "snd (onTextMessage me ?r1 e2 t2 oc2)"
  have r1: "?r1 = Map_set reg ?k (t1 + 10800000)"
    using g1 by (simp add: onTextMessage_registry)
  have r2: "?r2 = Map_set ?r1 ?k (t2 + 10800000)"
    using g2 same by (simp add: onTextMessage_registry)
  have m1: "map_of ?r1 = (map_of reg)(?k \<mapsto> t1 + 10800000)"
    by (simp add: r1 Map_set_map_of)
  have m2: "map_of ?r2 = (map_of reg)(?k \<mapsto> t2 + 10800000)"
    by (simp add: r2 m1 Map_set_map_of)
  have keys: "Map_keys ?r2 = Map_keys ?r1"
    unfolding r2 by (simp add: r1 Map_keys_def Map_set_def update_keys)
  have d1: "distinct (map fst ?r1)"
    using d by (simp add: r1 Map_set_distinct)
  have d2: "distinct (map fst ?r2)"
    by (simp only: r2) (rule Map_set_distinct [OF d1])
  have chk: "Map_has (snd (purge t ?r2)) ?k = (t \<le> t2 + 10800000)"
    using Map_has_purge [OF d2, of t ?k] by (simp add: m2)
  show ?thesis
    using r1 m1 m2 keys chk by simp
qed

theorem C6_grant_replaces_witness:
  "map_of (snd (onTextMessage ''1''
      (snd (onTextMessage ''1'' [(''4'', 7)]
         \<lparr>targetmode = CLIENT,
          invoker = \<lparr>clid = ''2'', cid = ''5'', idleTime = 0, nickname = ''guest''\<rparr>,
          msg = ''!stop''\<rparr> 100 SendRejects))
      \<lparr>targetmode = CLIENT,
       invoker = \<lparr>clid = ''2'', cid = ''5'', idleTime = 0, nickname = ''guest''\<rparr>,
       msg = ''!stop''\<rparr> 500 SendResolves)) ''2'' = Some 10800500"
proof -
  let ?e = "\<lparr>targetmode = CLIENT,
          invoker = \<lparr>clid = ''2'', cid = ''5'', idleTime = 0, nickname = ''guest''\<rparr>,
          msg = ''!stop''\<rparr>"
  have g: "targetmode ?e = CLIENT \<or> clid (invoker ?e) \<noteq> ''1''" by simp
  have p: "startsWith (msg ?e) ''!stop''" by (simp add: startsWith_def)
  have s: "clid (invoker ?e) = clid (invoker ?e)" by simp
  have d: "distinct (map fst [(''4'', 7 :: int)])" by simp
  from C6_grant_replaces [OF g p g p s d, of 100 SendRejects 500 SendResolves 0]
  have "map_of (snd (onTextMessage ''1'' (snd (onTextMessage ''1'' [(''4'', 7)] ?e 100 SendRejects))
          ?e 500 SendResolves)) = (map_of [(''4'', 7)])(clid (invoker ?e) \<mapsto> 500 + 10800000)"
    by (elim conjE)
  then show ?thesis by simp
qed

subsection \<open>A notification that fails\<close>

text \<open>
  C7 (the code departs from the claim): when the promise returned by \<open>client.message\<close>
  rejects, \<open>trySendMessage\<close> does not catch it, since the call is not awaited inside the
  \<open>try\<close>. For a client idle for 10:01 outside the holding channel, the effects of the
  loop body are: the announcement in the log, the debug line, the message call, a
  rejection left unhandled, and the move. No warning is logged. The move is issued
  once all the same.
\<close>

theorem C7_rejected_notification_is_not_caught:
  "fst (sweepClient \<lparr>idletime = Finite 10\<rparr>
      \<lparr>env_now = 0, env_clientList = Resolved [], env_lobby = Resolved (Some \<lparr>ch_cid = ''1''\<rparr>),
       env_message = (\<lambda>c. SendRejects), env_move = (\<lambda>c. Resolved ())\<rparr>
      \<lparr>ch_cid = ''1''\<rparr> []
      \<lparr>clid = ''7'', cid = ''2'', idleTime = 601000, nickname = ''n''\<rparr>)
   = [Log Info (WillBeMoved ''n'' 601000),
      Log Debug (SendingMessage ''n'' (IdleNotice ''n'')),
      Message ''7'' (IdleNotice ''n''),
      UnhandledRejection,
      Move ''7'' ''1'']"
  by (simp add: sweepClient_def idleThreshold_ten Map_has_def trySendMessage_def)

subsection \<open>The holding channel is missing\<close>

text \<open>
  C8: when the roster is obtained and the lookup of the holding channel resolves to
  nothing, the cycle ends the process with exit code 1: its last effect is \<open>exit(1)\<close>,
  it issues no move, and no later event has any effect.
\<close>

theorem C8_missing_lobby_exits:
  assumes "exited b = None"
    and "env_clientList env = Resolved cs"
    and "env_lobby env = Resolved None"
  shows "snd (snd (sweep cfg (protectedUsers b) env)) = Exited 1
    \<and> last (fst (sweep cfg (protectedUsers b) env)) = Exit 1
    \<and> moves (fst (sweep cfg (protectedUsers b) env)) = []
    \<and> fst (step cfg me b (Timer env)) = fst (sweep cfg (protectedUsers b) env)
    \<and> exited (snd (step cfg me b (Timer env))) = Some 1
    \<and> (\<forall>evs. fst (run cfg me (snd (step cfg me b (Timer env))) evs) = [])"
proof -
  note sw = sweep_absent [OF assms(2,3), of cfg "protectedUsers b"]
  have st: "step cfg me b (Timer env) =
              (fst (sweep cfg (protectedUsers b) env),
               b\<lparr>protectedUsers := snd (purge (env_now env) (protectedUsers b)), exited := Some 1\<rparr>)"
    using assms(1) by (simp add: step_def sw)
  have ex: "exited (snd (step cfg me b (Timer env))) = Some 1"
    by (simp add: st)
  have after: "fst (run cfg me (snd (step cfg me b (Timer env))) evs) = []" for evs
    using run_exited [of "snd (step cfg me b (Timer env))" cfg me evs] ex by simp
  have mv: "moves (fst (sweep cfg (protectedUsers b) env)) = []"
    by (simp add: sw moves_append purge_def moves_purge)
  show ?thesis
    using ex after mv by (simp add: st) (simp add: sw)
qed

theorem C8_missing_lobby_exits_witness:
  "exited (snd (step \<lparr>idletime = Finite 10\<rparr> ''1'' \<lparr>protectedUsers = [], exited = None\<rparr>
      (Timer \<lparr>env_now = 0,
         env_clientList = Resolved [\<lparr>clid = ''7'', cid = ''2'', idleTime = 601000, nickname = ''n''\<rparr>],
         env_lobby = Resolved None,
         env_message = (\<lambda>c. SendResolves), env_move = (\<lambda>c. Resolved ())\<rparr>))) = Some 1
   \<and> moves (fst (step \<lparr>idletime = Finite 10\<rparr> ''1'' \<lparr>protectedUsers = [], exited = None\<rparr>
      (Timer \<lparr>env_now = 0,
         env_clientList = Resolved [\<lparr>clid = ''7'', cid = ''2'', idleTime = 601000, nickname = ''n''\<rparr>],
         env_lobby = Resolved None,
         env_message = (\<lambda>c. SendResolves), env_move = (\<lambda>c. Resolved ())\<rparr>))) = []"
proof -
  let ?env = "\<lparr>env_now = 0,
         env_clientList = Resolved [\<lparr>clid = ''7'', cid = ''2'', idleTime = 601000, nickname = ''n''\<rparr>],
         env_lobby = Resolved None,
         env_message = (\<lambda>c. SendResolves), env_move = (\<lambda>c. Resolved ())\<rparr>"
  let ?b = "\<lparr>protectedUsers = [], exited = None\<rparr>"
  have a: "exited ?b = None" by simp
  have c: "env_clientList ?env =
             Resolved [\<lparr>clid = ''7'', cid = ''2'', idleTime = 601000, nickname = ''n''\<rparr>]" by simp
  have l: "env_lobby ?env = Resolved None" by simp
  from C8_missing_lobby_exits [OF a c l, of "\<lparr>idletime = Finite 10\<rparr>" "''1''"]
  show ?thesis by simp
qed

subsection \<open>Connection loss and connection errors\<close>

text \<open>
  C9: on a connection-loss event the handler logs the loss (the payload, then the
  notice) and then calls \<open>reconnect(-1, 1000)\<close>: the attempt count \<open>-1\<close>, by which the
  session library is asked to retry without limit, and a delay of 1000 ms between
  attempts that does not depend on the event. It logs the reconnection once the call
  has returned. On a general error event the handler logs the error and does nothing
  else: no reconnect.
\<close>

theorem C9_close_reconnects_error_logs:
  assumes "exited b = None"
  shows "fst (step cfg me b (Close err rc)) =
           [Log Warn (ClosePayload err), Log Warn ConnectionLost, Reconnect (- 1) 1000]
           @ (case rc of Resolved u \<Rightarrow> [Log Warn Reconnected] | Rejected \<Rightarrow> [])
    \<and> fst (step cfg me b (ErrorEvent err)) = [Log Error (SomethingWentWrong err)]
    \<and> snd (step cfg me b (Close err rc)) = b
    \<and> snd (step cfg me b (ErrorEvent err)) = b"
  using assms by (cases rc) (simp_all add: step_def onClose_def onError_def)

theorem C9_close_reconnects_error_logs_witness:
  "fst (step \<lparr>idletime = Finite 10\<rparr> ''1'' \<lparr>protectedUsers = [], exited = None\<rparr>
         (Close ''timeout'' (Resolved ())))
     = [Log Warn (ClosePayload ''timeout''), Log Warn ConnectionLost, Reconnect (- 1) 1000,
        Log Warn Reconnected]
   \<and> fst (step \<lparr>idletime = Finite 10\<rparr> ''1'' \<lparr>protectedUsers = [], exited = None\<rparr>
         (ErrorEvent ''timeout'')) = [Log Error (SomethingWentWrong ''timeout'')]"
proof -
  have a: "exited \<lparr>protectedUsers = [], exited = None\<rparr> = None" by simp
  from C9_close_reconnects_error_logs [OF a, of "\<lparr>idletime = Finite 10\<rparr>" "''1''" "''timeout''" "Resolved ()"]
  show ?thesis by simp
qed

subsection \<open>Who inserts and who removes entries\<close>

text \<open>
  C10: in one step, an identity gets an entry, or a new expiry, only when the event is
  a text message that passes the filter, starts with \<open>!stop\<close> and comes from that
  identity (the expiry is then the instant of the message plus three hours); an entry
  disappears only when the event is a timer cycle whose instant is after the entry's
  expiry. Over any sequence of events, an identity that ends with an entry and began
  without one was granted it by such a message of the sequence, and an identity that
  began with an entry and ends without one met a timer cycle in the sequence. A client
  disconnecting runs no code: the state is unchanged, and the entry of a protected
  client stays until a cycle whose instant is after its expiry.
\<close>

theorem C10_registry_lifecycle:
  assumes d: "distinct (map fst (protectedUsers b))"
  shows "(map_of (protectedUsers (snd (step cfg me b ev))) k = Some v
            \<and> map_of (protectedUsers b) k \<noteq> Some v
          \<longrightarrow> (\<exists>e now oc. ev = TextMessage e now oc
                 \<and> (targetmode e = CLIENT \<or> clid (invoker e) \<noteq> me)
                 \<and> startsWith (msg e) ''!stop'' \<and> clid (invoker e) = k
                 \<and> v = now + 10800000))
    \<and> (map_of (protectedUsers b) k = Some v
            \<and> map_of (protectedUsers (snd (step cfg me b ev))) k = None
          \<longrightarrow> (\<exists>env. ev = Timer env \<and> v < env_now env))
    \<and> (Map_has (protectedUsers (snd (run cfg me b evs))) k \<and> \<not> Map_has (protectedUsers b) k
          \<longrightarrow> (\<exists>e now oc. TextMessage e now oc \<in> set evs
                 \<and> (targetmode e = CLIENT \<or> clid (invoker e) \<noteq> me)
                 \<and> startsWith (msg e) ''!stop'' \<and> clid (invoker e) = k))
    \<and> (Map_has (protectedUsers b) k \<and> \<not> Map_has (protectedUsers (snd (run cfg me b evs))) k
          \<longrightarrow> (\<exists>env. Timer env \<in> set evs))
    \<and> step cfg me b (ClientDisconnect c) = ([], b)
    \<and> (exited b = None \<and> map_of (protectedUsers b) k = Some v
          \<longrightarrow> map_of (protectedUsers (snd (run cfg me b [ClientDisconnect c, Timer env]))) k
              = (if v < env_now env then None else Some v))"
proof (intro conjI impI)
  assume a: "map_of (protectedUsers (snd (step cfg me b ev))) k = Some v
               \<and> map_of (protectedUsers b) k \<noteq> Some v"
  show "\<exists>e now oc. ev = TextMessage e now oc
                 \<and> (targetmode e = CLIENT \<or> clid (invoker e) \<noteq> me)
                 \<and> startsWith (msg e) ''!stop'' \<and> clid (invoker e) = k
                 \<and> v = now + 10800000"
  proof (cases ev)
    case (TextMessage e now oc)
    with a show ?thesis
      by (auto simp: step_registry onTextMessage_registry Map_set_map_of split: if_splits)
  next
    case (Timer env)
    with a d show ?thesis
      by (auto simp: step_registry purge_map_of split: if_splits option.splits
               dest: eq_key_imp_eq_value)
  qed (use a in \<open>auto simp: step_registry split: if_splits\<close>)
next
  assume a: "map_of (protectedUsers b) k = Some v
               \<and> map_of (protectedUsers (snd (step cfg me b ev))) k = None"
  show "\<exists>env. ev = Timer env \<and> v < env_now env"
  proof (cases ev)
    case (TextMessage e now oc)
    with a show ?thesis
      by (auto simp: step_registry onTextMessage_registry Map_set_map_of split: if_splits)
  next
    case (Timer env)
    with a d show ?thesis
      by (auto simp: step_registry purge_map_of split: if_splits option.splits
               dest: eq_key_imp_eq_value)
  qed (use a in \<open>auto simp: step_registry split: if_splits\<close>)
next
  assume "Map_has (protectedUsers (snd (run cfg me b evs))) k \<and> \<not> Map_has (protectedUsers b) k"
  then show "\<exists>e now oc. TextMessage e now oc \<in> set evs
                 \<and> (targetmode e = CLIENT \<or> clid (invoker e) \<noteq> me)
                 \<and> startsWith (msg e) ''!stop'' \<and> clid (invoker e) = k"
    using run_keys_grow [of k cfg me b evs] by (simp add: Map_has_keys)
next
  assume "Map_has (protectedUsers b) k \<and> \<not> Map_has (protectedUsers (snd (run cfg me b evs))) k"
  then show "\<exists>env. Timer env \<in> set evs"
    using run_keys_shrink [of k b cfg me evs] by (simp add: Map_has_keys)
next
  show "step cfg me b (ClientDisconnect c) = ([], b)"
    by (simp add: step_def)
next
  assume a: "exited b = None \<and> map_of (protectedUsers b) k = Some v"
  then have e: "exited b = None" and m: "map_of (protectedUsers b) k = Some v"
    by simp_all
  have r: "snd (run cfg me b [ClientDisconnect c, Timer env]) = snd (step cfg me b (Timer env))"
    by (simp add: step_def case_prod_unfold)
  have "map_of (protectedUsers (snd (step cfg me b (Timer env)))) k =
          (case map_of (protectedUsers b) k of None \<Rightarrow> None
           | Some v \<Rightarrow> if v < env_now env then None else Some v)"
    using e by (simp add: step_registry purge_map_of [OF d])
  then show "map_of (protectedUsers (snd (run cfg me b [ClientDisconnect c, Timer env]))) k
              = (if v < env_now env then None else Some v)"
    unfolding r m by simp
qed

theorem C10_registry_lifecycle_witness:
  "map_of (protectedUsers (snd (run \<lparr>idletime = Finite 10\<rparr> ''1''
      \<lparr>protectedUsers = [(''7'', 5000)], exited = None\<rparr>
      [ClientDisconnect \<lparr>clid = ''7'', cid = ''2'', idleTime = 0, nickname = ''n''\<rparr>,
       Timer \<lparr>env_now = 4000, env_clientList = Resolved [],
              env_lobby = Resolved (Some \<lparr>ch_cid = ''1''\<rparr>),
              env_message = (\<lambda>c. SendResolves), env_move = (\<lambda>c. Resolved ())\<rparr>]))) ''7''
     = Some 5000
   \<and> map_of (protectedUsers (snd (run \<lparr>idletime = Finite 10\<rparr> ''1''
      \<lparr>protectedUsers = [(''7'', 5000)], exited = None\<rparr>
      [ClientDisconnect \<lparr>clid = ''7'', cid = ''2'', idleTime = 0, nickname = ''n''\<rparr>,
       Timer \<lparr>env_now = 6000, env_clientList = Resolved [],
              env_lobby = Resolved (Some \<lparr>ch_cid = ''1''\<rparr>),
              env_message = (\<lambda>c. SendResolves), env_move = (\<lambda>c. Resolved ())\<rparr>]))) ''7''
     = None"
proof -
  let ?b = "\<lparr>protectedUsers = [(''7'', 5000)], exited = None\<rparr>"
  let ?c = "\<lparr>clid = ''7'', cid = ''2'', idleTime = 0, nickname = ''n''\<rparr>"
  let ?early = "\<lparr>env_now = 4000, env_clientList = Resolved [],
              env_lobby = Resolved (Some \<lparr>ch_cid = ''1''\<rparr>),
              env_message = (\<lambda>c. SendResolves), env_move = (\<lambda>c. Resolved ())\<rparr>"
  let ?late = "\<lparr>env_now = 6000, env_clientList = Resolved [],
              env_lobby = Resolved (Some \<lparr>ch_cid = ''1''\<rparr>),
              env_message = (\<lambda>c. SendResolves), env_move = (\<lambda>c. Resolved ())\<rparr>"
  have d: "distinct (map fst (protectedUsers ?b))" by simp
  have p: "exited ?b = None \<and> map_of (protectedUsers ?b) ''7'' = Some 5000" by simp
  note th = C10_registry_lifecycle [OF d, where cfg = "\<lparr>idletime = Finite 10\<rparr>" and me = "''1''"
      and k = "''7''" and v = 5000 and c = ?c]
  have early: "map_of (protectedUsers (snd (run \<lparr>idletime = Finite 10\<rparr> ''1'' ?b
                  [ClientDisconnect ?c, Timer ?early]))) ''7''
               = (if 5000 < env_now ?early then None else Some 5000)"
    using th [where env = ?early] p by blast
  have late: "map_of (protectedUsers (snd (run \<lparr>idletime = Finite 10\<rparr> ''1'' ?b
                  [ClientDisconnect ?c, Timer ?late]))) ''7''
               = (if 5000 < env_now ?late then None else Some 5000)"
    using th [where env = ?late] p by blast
  from early late show ?thesis by simp
qed

end
